theory Spec2Isabelle
  imports Main "HOL-Library.Word"
begin

unbundle bit_operations_syntax

section \<open>Machine model\<close>

text \<open>
  The firmware runs on RV64 (\<open>XLEN = 8\<close> in \<open>include/common.h\<close>): addresses, \<open>size_t\<close> and
  \<open>uint64_t\<close> are 64-bit words, \<open>uint32_t\<close> is a 32-bit word and \<open>char\<close> a byte.  Memory and
  the pending registers of the interrupt controller share one byte-addressed store; a 32-bit
  access touches four consecutive bytes, little-endian.  Pointer arithmetic wraps modulo
  \<open>2 ^ 64\<close>.

  The registers of the UART are ports, not storage: a load from one is answered by the
  device and a store to \<open>TXDATA\<close> hands a character to the transmitter.  The answers the
  device will give are part of the machine: \<open>uart_tx\<close> lists, for the coming loads of
  \<open>TXDATA\<close>, whether the transmit queue is full (after the last entry it is not), and
  \<open>uart_rx\<close> lists, for the coming loads of \<open>RXDATA\<close>, the character received or \<open>None\<close>
  for an empty receive queue (after the last entry it stays empty).

  A \<open>machine\<close> is the store and the device together with the view of the hart that
  executes: its \<open>mhartid\<close> register and the \<open>trace\<close> of the accesses, fences and wait
  instructions it has issued, in program order.  A fence has no effect on the store of this
  sequential model; only its position in the trace is observable.  \<open>clint_base\<close> and
  \<open>uart_base\<close> are the static variables of \<open>devices/clint/clint.c\<close> and
  \<open>devices/uart/uart.c\<close>.
\<close>

type_synonym addr = "64 word"
type_synonym byte = "8 word"

datatype fence_arg = FI | FO | FR | FW

datatype event =
    Fence fence_arg fence_arg
  | LoadB addr
  | StoreB addr byte
  | LoadW addr
  | StoreW addr "32 word"
  | CsrMip
  | Wfi
  | Putc byte

record machine =
  mem :: "addr \<Rightarrow> byte"
  clint_base :: addr
  uart_base :: addr
  uart_tx :: "bool list"
  uart_rx :: "byte option list"
  mhartid :: "64 word"
  trace :: "event list"

definition log :: "event list \<Rightarrow> machine \<Rightarrow> machine" where
  "log es s = s\<lparr>trace := trace s @ es\<rparr>"

definition load32 :: "(addr \<Rightarrow> byte) \<Rightarrow> addr \<Rightarrow> 32 word" where
  "load32 m a =
     ucast (m a) OR push_bit 8 (ucast (m (a + 1))) OR push_bit 16 (ucast (m (a + 2)))
       OR push_bit 24 (ucast (m (a + 3)))"

definition store32 :: "(addr \<Rightarrow> byte) \<Rightarrow> addr \<Rightarrow> 32 word \<Rightarrow> (addr \<Rightarrow> byte)" where
  "store32 m a v =
     m(a := ucast v, a + 1 := ucast (drop_bit 8 v), a + 2 := ucast (drop_bit 16 v),
       a + 3 := ucast (drop_bit 24 v))"

subsection \<open>Constants of \<open>include/mem.h\<close>, \<open>include/smp.h\<close>, \<open>clint.h\<close>, \<open>uart.h\<close>, \<open>console.h\<close>\<close>

definition CLINT_CTRL_ADDR :: addr where "CLINT_CTRL_ADDR = 0x2000000"
definition SMP_ADDR :: addr where "SMP_ADDR = 0x80100000"
definition SMP_SIZE :: nat where "SMP_SIZE = 0x1000"

definition UART0_ADDR :: addr where "UART0_ADDR = 0x10010000"

definition UART_REG_TXDATA :: "32 word" where "UART_REG_TXDATA = 0"
definition UART_REG_RXDATA :: "32 word" where "UART_REG_RXDATA = 1"
definition UART_TXDATA_FULL :: "32 word" where "UART_TXDATA_FULL = 0x80000000"
definition UART_RXDATA_EMPTY :: "32 word" where "UART_RXDATA_EMPTY = 0x80000000"

definition MAX_HARTS :: nat where "MAX_HARTS = 5"
definition ZERO_HART :: "64 word" where "ZERO_HART = 0"

definition CLINT_MSIP_OFFSET :: "64 word" where "CLINT_MSIP_OFFSET = 0x0000"
definition CLINT_MSIP_SIZE :: "64 word" where "CLINT_MSIP_SIZE = 0x4"

definition CLINT_END_HART_IPI :: addr where
  "CLINT_END_HART_IPI = CLINT_CTRL_ADDR + (of_nat MAX_HARTS * CLINT_MSIP_SIZE)"

definition CLINT_SOFT :: "addr \<Rightarrow> 64 word \<Rightarrow> addr" where
  "CLINT_SOFT base hartid = base + hartid * CLINT_MSIP_SIZE + CLINT_MSIP_OFFSET"

definition MIP_MSIP :: "64 word" where "MIP_MSIP = push_bit 3 1"

subsection \<open>\<open>include/riscv.h\<close>, \<open>include/io.h\<close>: fences and device accesses\<close>

definition fence :: "fence_arg \<Rightarrow> fence_arg \<Rightarrow> machine \<Rightarrow> machine" where
  "fence p q s = log [Fence p q] s"

definition raw_writeb :: "byte \<Rightarrow> addr \<Rightarrow> machine \<Rightarrow> machine" where
  "raw_writeb v a s = log [StoreB a v] (s\<lparr>mem := (mem s)(a := v)\<rparr>)"

definition raw_readb :: "addr \<Rightarrow> machine \<Rightarrow> byte \<times> machine" where
  "raw_readb a s = (mem s a, log [LoadB a] s)"

definition raw_writew :: "32 word \<Rightarrow> addr \<Rightarrow> machine \<Rightarrow> machine" where
  "raw_writew v a s = log [StoreW a v] (s\<lparr>mem := store32 (mem s) a v\<rparr>)"

definition raw_readw :: "addr \<Rightarrow> machine \<Rightarrow> 32 word \<times> machine" where
  "raw_readw a s = (load32 (mem s) a, log [LoadW a] s)"

text \<open>\<open>readb(a)\<close>: \<open>__io_br()\<close> is empty, then the load, then \<open>__io_ar()\<close> = \<open>fence(i, r)\<close>.\<close>

definition readb :: "addr \<Rightarrow> machine \<Rightarrow> byte \<times> machine" where
  "readb a s = (let (v, s1) = raw_readb a s in (v, fence FI FR s1))"

definition readw :: "addr \<Rightarrow> machine \<Rightarrow> 32 word \<times> machine" where
  "readw a s = (let (v, s1) = raw_readw a s in (v, fence FI FR s1))"

text \<open>\<open>writew(v, a)\<close>: \<open>__io_bw()\<close> = \<open>fence(w, o)\<close>, then the store; \<open>__io_aw()\<close> is empty.\<close>

definition writew :: "32 word \<Rightarrow> addr \<Rightarrow> machine \<Rightarrow> machine" where
  "writew v a s = raw_writew v a (fence FW FO s)"

text \<open>
  \<open>writeb(v, a)\<close> is a macro: \<open>fence(w, o)\<close> is issued first and the argument \<open>v\<close> is
  evaluated afterwards, inside the call of \<open>__raw_writeb\<close>; so \<open>v\<close> is a computation here.
\<close>

definition writeb :: "(machine \<Rightarrow> byte \<times> machine) \<Rightarrow> addr \<Rightarrow> machine \<Rightarrow> machine" where
  "writeb v a s = (let (x, s1) = v (fence FW FO s) in raw_writeb x a s1)"

subsection \<open>\<open>devices/clint/clint.c\<close>\<close>


definition clint_check_soft :: "64 word \<Rightarrow> machine \<Rightarrow> 32 word \<times> machine" where
  "clint_check_soft hartid s = readw (CLINT_SOFT (clint_base s) hartid) s"

definition clint_send_soft :: "64 word \<Rightarrow> machine \<Rightarrow> machine" where
  "clint_send_soft hartid s = writew 1 (CLINT_SOFT (clint_base s) hartid) s"

definition clint_clear_soft :: "64 word \<Rightarrow> machine \<Rightarrow> machine" where
  "clint_clear_soft hartid s = writew 0 (CLINT_SOFT (clint_base s) hartid) s"

text \<open>
  \<open>is_pending\<close> of the specification is \<open>clint_check_soft\<close> read as a truth value (C: nonzero).
\<close>

definition is_pending :: "64 word \<Rightarrow> machine \<Rightarrow> bool" where
  "is_pending hartid s = (fst (clint_check_soft hartid s) \<noteq> 0)"

subsection \<open>\<open>libs/string.c\<close>\<close>

text \<open>
  A plain dereference \<open>*s\<close> or assignment \<open>*d = v\<close> of a \<open>char\<close> is the same \<open>lb\<close> or \<open>sb\<close>
  instruction as \<open>__raw_readb\<close> and \<open>__raw_writeb\<close>, without any fence.
\<close>

function memcpy_loop :: "addr \<Rightarrow> addr \<Rightarrow> 64 word \<Rightarrow> machine \<Rightarrow> machine" where
  "memcpy_loop d s n m =
     (if 0 < n then
        (let (v, m1) = raw_readb s m in memcpy_loop (d + 1) (s + 1) (n - 1) (raw_writeb v d m1))
      else m)"
  by pat_completeness auto
termination
  by (relation "measure (\<lambda>(d, s, n, m). unat n)") (auto simp: unat_minus_one word_gt_0 unat_gt_0)

definition memcpy :: "addr \<Rightarrow> addr \<Rightarrow> 64 word \<Rightarrow> machine \<Rightarrow> addr \<times> machine" where
  "memcpy dst src n m = (dst, memcpy_loop dst src n m)"

text \<open>\<open>strlen\<close> does not return when no byte from \<open>s\<close> on is zero: the result is \<open>None\<close>.\<close>

partial_function (option)
  strlen_loop :: "addr \<Rightarrow> 64 word \<Rightarrow> machine \<Rightarrow> (64 word \<times> machine) option" where
  "strlen_loop s cnt m =
     (let (v, m1) = raw_readb s m in
      if v \<noteq> 0 then strlen_loop (s + 1) (cnt + 1) m1 else Some (cnt, m1))"

definition strlen :: "addr \<Rightarrow> machine \<Rightarrow> (64 word \<times> machine) option" where
  "strlen s m = strlen_loop s 0 m"

subsection \<open>\<open>main.c\<close>: \<open>smp_memcpy\<close>\<close>

function smp_memcpy_loop :: "addr \<Rightarrow> addr \<Rightarrow> 64 word \<Rightarrow> machine \<Rightarrow> machine" where
  "smp_memcpy_loop d s n m =
     (if 0 < n then smp_memcpy_loop (d + 1) (s + 1) (n - 1) (writeb (readb s) d m) else m)"
  by pat_completeness auto
termination
  by (relation "measure (\<lambda>(d, s, n, m). unat n)") (auto simp: unat_minus_one word_gt_0 unat_gt_0)

definition smp_memcpy :: "addr \<Rightarrow> addr \<Rightarrow> 64 word \<Rightarrow> machine \<Rightarrow> addr \<times> machine" where
  "smp_memcpy dst src n m = (dst, smp_memcpy_loop dst src n m)"

subsection \<open>\<open>devices/uart/uart.c\<close> and \<open>puts\<close> of \<open>main.c\<close>\<close>

text \<open>
  \<open>get_reg(i)\<close> is \<open>readw(uart_base + (i << 2))\<close>: the load and the \<open>fence(i, r)\<close> of \<open>readw\<close>
  are issued, the value is the answer of the device.  \<open>set_reg(i, v)\<close> is
  \<open>writew(v, uart_base + (i << 2))\<close>: the \<open>fence(w, o)\<close> and the store of \<open>writew\<close> are issued;
  a store to \<open>TXDATA\<close> transmits the low byte of \<open>v\<close> (event \<open>Putc\<close>).
\<close>

definition uart_reg :: "32 word \<Rightarrow> machine \<Rightarrow> addr" where
  "uart_reg i s = uart_base s + ucast (push_bit 2 i)"

definition get_reg :: "32 word \<Rightarrow> machine \<Rightarrow> 32 word \<times> machine" where
  "get_reg i s =
     (let s1 = snd (readw (uart_reg i s) s) in
      if i = UART_REG_TXDATA then
        (case uart_tx s1 of
           [] \<Rightarrow> (0, s1)
         | f # fs \<Rightarrow> ((if f then UART_TXDATA_FULL else 0), s1\<lparr>uart_tx := fs\<rparr>))
      else if i = UART_REG_RXDATA then
        (case uart_rx s1 of
           [] \<Rightarrow> (UART_RXDATA_EMPTY, s1)
         | r # rs \<Rightarrow>
             ((case r of None \<Rightarrow> UART_RXDATA_EMPTY | Some c \<Rightarrow> ucast c), s1\<lparr>uart_rx := rs\<rparr>))
      else (0, s1))"

definition set_reg :: "32 word \<Rightarrow> 32 word \<Rightarrow> machine \<Rightarrow> machine" where
  "set_reg i v s =
     (let s1 = log [StoreW (uart_reg i s) v] (fence FW FO s)
      in if i = UART_REG_TXDATA then log [Putc (ucast v)] s1 else s1)"

text \<open>
  \<open>uart_putc\<close>: the loop \<open>while (get_reg(UART_REG_TXDATA) & UART_TXDATA_FULL)\<close>, then
  \<open>set_reg(UART_REG_TXDATA, ch)\<close>.  The loop ends because \<open>uart_tx\<close> is finite.
\<close>

function uart_tx_wait :: "machine \<Rightarrow> machine" where
  "uart_tx_wait s =
     (let (reg, s1) = get_reg UART_REG_TXDATA s in
      if reg AND UART_TXDATA_FULL \<noteq> 0 then uart_tx_wait s1 else s1)"
  by pat_completeness auto
termination
  by (relation "measure (\<lambda>s. length (uart_tx s))")
    (auto simp: get_reg_def readw_def raw_readw_def fence_def log_def Let_def
      split: list.splits if_splits)

definition uart_putc :: "byte \<Rightarrow> machine \<Rightarrow> machine" where
  "uart_putc ch s = set_reg UART_REG_TXDATA (ucast ch) (uart_tx_wait s)"



text \<open>
  \<open>uart_puts\<close> reads its argument from the store up to the first zero byte (\<open>*s\<close> in the loop
  condition, \<open>*s++\<close> in the call).  A string literal is a constant of the image:
  \<open>uart_puts_lit\<close> hands its characters to \<open>uart_putc\<close> directly.
\<close>

partial_function (option) uart_puts :: "addr \<Rightarrow> machine \<Rightarrow> machine option" where
  "uart_puts s m =
     (let (v, m1) = raw_readb s m in
      if v \<noteq> 0 then (let (c, m2) = raw_readb s m1 in uart_puts (s + 1) (uart_putc c m2))
      else Some m1)"

definition uart_puts_lit :: "string \<Rightarrow> machine \<Rightarrow> machine" where
  "uart_puts_lit cs s = fold (\<lambda>c. uart_putc (of_char c)) cs s"

definition hex_char :: "32 word \<Rightarrow> nat \<Rightarrow> byte" where
  "hex_char hex idx =
     (let c = ucast (drop_bit (idx * 4) hex AND 0xf) :: byte
      in if c < 0xa then 0x30 + c else 0x61 + c - 0xa)"

definition uart_put_hex :: "32 word \<Rightarrow> machine \<Rightarrow> machine" where
  "uart_put_hex hex s =
     fold (\<lambda>idx. uart_putc (hex_char hex idx)) (rev [0..<8]) (uart_puts_lit ''0x'' s)"

definition puts_lit :: "string \<Rightarrow> machine \<Rightarrow> machine" where
  "puts_lit cs s =
     (let s1 = uart_puts_lit (CHR 0x0D # CHR 0x0A # ''[HART '') s;
          s2 = uart_putc (0x30 + ucast (mhartid s1)) s1;
          s3 = uart_puts_lit ''] '' s2
      in uart_puts_lit cs s3)"

subsection \<open>Other harts and the wait instruction\<close>

text \<open>
  While one hart waits or polls, the others run.  What they do to the pending registers is
  given by a schedule: one list of actions for every \<open>wfi\<close> or poll of the hart under
  consideration.  \<open>SendSoft h\<close> and \<open>ClearSoft h\<close> are the stores of \<open>clint_send_soft(h)\<close> and
  \<open>clint_clear_soft(h)\<close> (or of \<open>sw zero\<close> in \<open>smp_resume\<close>) executed by another hart after
  \<open>clint_init(CLINT_CTRL_ADDR)\<close>.  A schedule that runs out while the hart still waits
  stands for a wait that does not end: the result is \<open>None\<close>.

  Hardware: the \<open>MSIP\<close> bit of a hart's \<open>mip\<close> register is bit 0 of its pending register in
  the controller at \<open>CLINT_CTRL_ADDR\<close>.
\<close>

datatype hart_action = SendSoft "64 word" | ClearSoft "64 word"

type_synonym schedule = "hart_action list list"

fun act :: "hart_action \<Rightarrow> machine \<Rightarrow> machine" where
  "act (SendSoft h) s = s\<lparr>mem := store32 (mem s) (CLINT_SOFT CLINT_CTRL_ADDR h) 1\<rparr>"
| "act (ClearSoft h) s = s\<lparr>mem := store32 (mem s) (CLINT_SOFT CLINT_CTRL_ADDR h) 0\<rparr>"

definition others :: "hart_action list \<Rightarrow> machine \<Rightarrow> machine" where
  "others acts s = fold act acts s"

definition wfi :: "hart_action list \<Rightarrow> machine \<Rightarrow> machine" where
  "wfi acts s = others acts (log [Wfi] s)"

definition msip_line :: "machine \<Rightarrow> bool" where
  "msip_line s = bit (load32 (mem s) (CLINT_SOFT CLINT_CTRL_ADDR (mhartid s))) 0"

definition read_csr_mip :: "machine \<Rightarrow> 64 word \<times> machine" where
  "read_csr_mip s = ((if msip_line s then MIP_MSIP else 0), log [CsrMip] s)"

subsection \<open>\<open>main.c\<close>: \<open>wait_ipi\<close>, the sending part of \<open>test_ipi\<close>, the loop of \<open>other_main\<close>\<close>

fun wait_ipi_loop :: "schedule \<Rightarrow> machine \<Rightarrow> (schedule \<times> machine) option" where
  "wait_ipi_loop [] s =
     (let (v, s1) = read_csr_mip s in
      if v AND MIP_MSIP = 0 then None else Some ([], s1))"
| "wait_ipi_loop (acts # sched) s =
     (let (v, s1) = read_csr_mip s in
      if v AND MIP_MSIP = 0 then wait_ipi_loop sched (wfi acts s1) else Some (acts # sched, s1))"

definition wait_ipi :: "64 word \<Rightarrow> schedule \<Rightarrow> machine \<Rightarrow> (schedule \<times> machine) option" where
  "wait_ipi hartid sched s =
     (case wait_ipi_loop sched s of
        None \<Rightarrow> None
      | Some (sched1, s1) \<Rightarrow> Some (sched1, clint_clear_soft hartid s1))"

text \<open>
  \<open>test_ipi\<close>, from \<open>char* m = readline(NULL)\<close> to \<open>clint_send_soft(to_hartid)\<close>: the message
  is the zero-terminated string at \<open>m\<close> (the static buffer of \<open>readline\<close>).
\<close>

definition test_ipi_send :: "64 word \<Rightarrow> addr \<Rightarrow> machine \<Rightarrow> machine option" where
  "test_ipi_send to_hartid m s =
     (case strlen m s of
        None \<Rightarrow> None
      | Some (len, s1) \<Rightarrow>
          (let (r, s2) = memcpy SMP_ADDR m (len + 1) s1;
               s3 = puts_lit ''Send software interrupt. Hartid='' s2;
               s4 = uart_put_hex (ucast to_hartid) s3
           in Some (clint_send_soft to_hartid s4)))"




text \<open>One round of the \<open>while (1)\<close> loop of \<open>other_main\<close>.\<close>

definition other_main_round :: "64 word \<Rightarrow> schedule \<Rightarrow> machine \<Rightarrow> (schedule \<times> machine) option" where
  "other_main_round hartid sched s =
     (case wait_ipi hartid sched s of
        None \<Rightarrow> None
      | Some (sched1, s1) \<Rightarrow>
          (let s2 = puts_lit ''Software interrupt from Hart 0'' s1;
               s3 = puts_lit ''Message from Hart 0: '' s2
           in case uart_puts SMP_ADDR s3 of
                None \<Rightarrow> None
              | Some s4 \<Rightarrow> Some (sched1, clint_send_soft ZERO_HART s4)))"

subsection \<open>\<open>include/smp.h\<close>: the assembly macro \<open>smp_resume\<close>\<close>

text \<open>
  \<open>sw\<close> and \<open>lw\<close> are the instructions of \<open>__raw_writew\<close> and \<open>__raw_readw\<close>; the macro issues
  no fence.  \<open>lw\<close> sign-extends the loaded word to the 64-bit register, \<open>blt\<close> compares
  signed.  The first loop (label 41) is the broadcast, the second (label 42) waits for the
  hart's own bit, then the hart clears its own register and the third loop (label 41 again)
  polls the registers of all harts in turn.  Secondary harts branch from \<open>smp_pause\<close> to
  label 42, so they run \<open>smp_barrier\<close> only.
\<close>

function smp_broadcast :: "addr \<Rightarrow> machine \<Rightarrow> machine" where
  "smp_broadcast reg1 s =
     (let s1 = raw_writew 1 reg1 s; reg1' = reg1 + 4 in
      if reg1' <s CLINT_END_HART_IPI then smp_broadcast reg1' s1 else s1)"
  by pat_completeness auto
termination
proof (relation "measure (\<lambda>(reg1, s). nat (sint CLINT_END_HART_IPI - sint (reg1 + 4)))",
    goal_cases)
  case 1
  show ?case by simp
next
  case (2 reg1 s s1 r)
  then have lt: "r <s CLINT_END_HART_IPI" and r: "r = reg1 + 4" by simp_all
  have "sint r < 33554452"
    using lt by (simp add: word_sless_alt CLINT_END_HART_IPI_def CLINT_CTRL_ADDR_def
        MAX_HARTS_def CLINT_MSIP_SIZE_def)
  moreover have "- (2 ^ 63) \<le> sint r" using sint_ge [of r] by simp
  ultimately have "signed_take_bit 63 (sint r + 4) = sint r + 4"
    by (intro signed_take_bit_int_eq_self) simp_all
  then have "sint (r + 4) = sint r + 4" by (simp add: sint_word_ariths)
  with lt have "nat (sint CLINT_END_HART_IPI - sint (r + 4))
      < nat (sint CLINT_END_HART_IPI - sint r)"
    by (simp add: word_sless_alt)
  then show ?case by (simp add: r)
qed






text \<open>A machine with all memory and device registers zero and the controller initialised.\<close>

definition hart_file :: machine where
  "hart_file = \<lparr>mem = (\<lambda>_. 0), clint_base = CLINT_CTRL_ADDR, uart_base = UART0_ADDR,
      uart_tx = [], uart_rx = [], mhartid = 0, trace = []\<rparr>"

subsection \<open>Auxiliary notions for the statements\<close>

text \<open>
  The forward copy of \<open>n\<close> bytes from \<open>s\<close> to \<open>d\<close> never reads a byte it has already
  written when \<open>d\<close> does not lie strictly inside the source range, that is, when \<open>d = s\<close> or
  \<open>d\<close> is at least \<open>n\<close> bytes above \<open>s\<close> (modulo \<open>2 ^ 64\<close>).  Disjoint ranges are of this kind.
\<close>

definition forward_safe :: "addr \<Rightarrow> addr \<Rightarrow> 64 word \<Rightarrow> bool" where
  "forward_safe d s n \<longleftrightarrow> d = s \<or> n \<le> d - s"

definition overlap_file :: machine where
  "overlap_file =
     \<lparr>mem = (\<lambda>_. 0)(0x100 := 1, 0x101 := 2, 0x102 := 3), clint_base = CLINT_CTRL_ADDR,
      uart_base = UART0_ADDR, uart_tx = [], uart_rx = [], mhartid = 0, trace = []\<rparr>"

text \<open>
  A zero-terminated string in the store: the bytes \<open>bs\<close>, none of them zero, from address
  \<open>a\<close> on, followed by a zero byte.
\<close>

fun cstring_at :: "(addr \<Rightarrow> byte) \<Rightarrow> addr \<Rightarrow> byte list \<Rightarrow> bool" where
  "cstring_at m a [] = (m a = 0)"
| "cstring_at m a (b # bs) = (b \<noteq> 0 \<and> m a = b \<and> cstring_at m (a + 1) bs)"

text \<open>The \<open>n\<close> consecutive addresses from \<open>a\<close> on.\<close>

fun addrs :: "addr \<Rightarrow> nat \<Rightarrow> addr list" where
  "addrs a 0 = []"
| "addrs a (Suc n) = a # addrs (a + 1) n"

text \<open>The events of a plain forward copy of the bytes \<open>vs\<close> from \<open>s\<close> to \<open>d\<close>.\<close>

fun copy_events :: "addr \<Rightarrow> addr \<Rightarrow> byte list \<Rightarrow> event list" where
  "copy_events d s [] = []"
| "copy_events d s (v # vs) = LoadB s # StoreB d v # copy_events (d + 1) (s + 1) vs"

text \<open>Projections of a trace: its byte stores, its fences, the characters sent to the UART.\<close>

fun store_of :: "event \<Rightarrow> (addr \<times> byte) list" where
  "store_of (StoreB a v) = [(a, v)]"
| "store_of e = []"

definition stores_of :: "event list \<Rightarrow> (addr \<times> byte) list" where
  "stores_of es = concat (map store_of es)"

fun is_fence :: "event \<Rightarrow> bool" where
  "is_fence (Fence p q) = True"
| "is_fence e = False"

fun putc_of :: "event \<Rightarrow> byte list" where
  "putc_of (Putc b) = [b]"
| "putc_of e = []"

definition output_of :: "event list \<Rightarrow> byte list" where
  "output_of es = concat (map putc_of es)"

text \<open>
  Every byte store of a trace is individually fenced: a \<open>fence(w, o)\<close> has been issued since
  the previous byte store (the flag tells whether one is outstanding).
\<close>

fun fenced_stores :: "bool \<Rightarrow> event list \<Rightarrow> bool" where
  "fenced_stores f [] = True"
| "fenced_stores f (Fence FW FO # es) = fenced_stores True es"
| "fenced_stores f (StoreB a v # es) = (f \<and> fenced_stores False es)"
| "fenced_stores f (e # es) = fenced_stores f es"

definition trace_of :: "machine option \<Rightarrow> event list" where
  "trace_of r = (case r of None \<Rightarrow> [] | Some s \<Rightarrow> trace s)"


text \<open>
  Stores for the examples: the message \<open>hi\<close>, zero-terminated at \<open>0x80000000\<close>, with a
  transmitter that is busy now and then; and an all-zero store on whose UART a line of \<open>n\<close>
  letters \<open>a\<close> and a line feed arrive.
\<close>

definition hi_file :: machine where
  "hi_file =
     \<lparr>mem = (\<lambda>_. 0)(0x80000000 := 0x68, 0x80000001 := 0x69), clint_base = CLINT_CTRL_ADDR,
      uart_base = UART0_ADDR, uart_tx = [True, False, True], uart_rx = [], mhartid = 0,
      trace = []\<rparr>"


text \<open>
  \<open>s'\<close> comes from \<open>s\<close> by output to the UART only: the store, the static variables, the
  hart and the receive queue are the same, and the events added store no byte and transmit
  the characters \<open>out\<close>.
\<close>

definition tx_only :: "machine \<Rightarrow> machine \<Rightarrow> byte list \<Rightarrow> bool" where
  "tx_only s s' out \<longleftrightarrow>
     mem s' = mem s \<and> clint_base s' = clint_base s \<and> uart_base s' = uart_base s \<and>
     mhartid s' = mhartid s \<and> uart_rx s' = uart_rx s \<and>
     (\<exists>es. trace s' = trace s @ es \<and> stores_of es = [] \<and> output_of es = out)"

text \<open>The characters \<open>puts\<close> of \<open>main.c\<close> sends for a string literal on hart \<open>hartid\<close>.\<close>

definition puts_bytes :: "64 word \<Rightarrow> string \<Rightarrow> byte list" where
  "puts_bytes hartid cs =
     map of_char (CHR 0x0D # CHR 0x0A # ''[HART '') @ [0x30 + ucast hartid] @
     map of_char ''] '' @ map of_char cs"

text \<open>
  The store as another hart \<open>h\<close> finds it: same memory and \<open>clint_base\<close>, its own \<open>mhartid\<close>
  and an empty trace of its own.
\<close>

definition seen_by :: "64 word \<Rightarrow> machine \<Rightarrow> machine" where
  "seen_by h s = s\<lparr>mhartid := h, trace := []\<rparr>"






section \<open>Word-sized accesses\<close>

lemma bytes_join:
  "ucast (ucast v :: byte) OR push_bit 8 (ucast (ucast (drop_bit 8 v) :: byte))
     OR push_bit 16 (ucast (ucast (drop_bit 16 v) :: byte))
     OR push_bit 24 (ucast (ucast (drop_bit 24 v) :: byte)) = (v :: 32 word)"
  apply (rule bit_word_eqI)
  apply (simp add: bit_simps)
  apply (auto simp: not_less not_le)
  subgoal for n by (cases "24 \<le> n") auto
  done

lemma load32_store32_same: "load32 (store32 m a v) a = v"
  unfolding load32_def store32_def by (simp add: bytes_join)

lemma store32_idem: "store32 (store32 m a v) a v = store32 m a v"
  by (simp add: store32_def)

lemma byte_of_load32:
  "ucast (load32 m a) = m a"
  "ucast (drop_bit 8 (load32 m a)) = m (a + 1)"
  "ucast (drop_bit 16 (load32 m a)) = m (a + 2)"
  "ucast (drop_bit 24 (load32 m a)) = m (a + 3)"
  unfolding load32_def
  by (rule bit_word_eqI; auto simp: bit_simps not_less not_le dest: bit_imp_le_length)+

lemma store32_load32: "store32 m a (load32 m a) = m"
  by (simp add: store32_def byte_of_load32)

text \<open>The pending registers of two distinct harts below \<open>MAX_HARTS\<close> share no byte.\<close>

lemma msip_sep:
  fixes g h i j :: "64 word"
  assumes "unat g < MAX_HARTS" "unat h < MAX_HARTS" "g \<noteq> h" "i < 4" "j < 4"
  shows "CLINT_SOFT b g + i \<noteq> CLINT_SOFT b h + j"
proof
  assume "CLINT_SOFT b g + i = CLINT_SOFT b h + j"
  then have "g * 4 + i = h * 4 + j"
    by (simp add: CLINT_SOFT_def CLINT_MSIP_SIZE_def CLINT_MSIP_OFFSET_def add.assoc)
  then have "unat (g * 4 + i) = unat (h * 4 + j)" by simp
  then have "(unat g * 4 + unat i) mod 2 ^ 64 = (unat h * 4 + unat j) mod 2 ^ 64"
    by (simp add: unat_word_ariths mod_simps)
  moreover have "unat i < 4" "unat j < 4"
    using assms(4,5) by (simp_all add: word_less_nat_alt)
  ultimately have "unat g * 4 + unat i = unat h * 4 + unat j"
    using assms(1,2) by (simp add: MAX_HARTS_def)
  with \<open>unat i < 4\<close> \<open>unat j < 4\<close> have "unat g = unat h" by arith
  with assms(3) show False by (simp add: word_unat_eq_iff)
qed

lemma store32_msip_other:
  assumes "unat g < MAX_HARTS" "unat h < MAX_HARTS" "g \<noteq> h" "i < 4"
  shows "store32 m (CLINT_SOFT b h) v (CLINT_SOFT b g + i) = m (CLINT_SOFT b g + i)"
  using msip_sep [OF assms, of 0] msip_sep [OF assms, of 1]
    msip_sep [OF assms, of 2] msip_sep [OF assms, of 3]
  by (simp add: store32_def)

lemma load32_store32_msip:
  assumes "unat g < MAX_HARTS" "unat h < MAX_HARTS" "g \<noteq> h"
  shows "load32 (store32 m (CLINT_SOFT b h) v) (CLINT_SOFT b g) = load32 m (CLINT_SOFT b g)"
  using store32_msip_other [OF assms, of 0] store32_msip_other [OF assms, of 1]
    store32_msip_other [OF assms, of 2] store32_msip_other [OF assms, of 3]
  by (simp add: load32_def)

lemmas io_defs = readw_def raw_readw_def writew_def raw_writew_def fence_def log_def
lemmas clint_defs = is_pending_def clint_check_soft_def clint_send_soft_def clint_clear_soft_def

section \<open>InterruptController: the pending bits\<close>

text \<open>
  Claim C5.  For a hart id \<open>h\<close> below \<open>MAX_HARTS\<close>: after \<open>clint_send_soft h\<close> the bit of \<open>h\<close>
  reads pending, after \<open>clint_clear_soft h\<close> it reads not pending.  Raising twice, or clearing
  twice, leaves the same store as doing it once, and raising a register that already reads 1
  (clearing one that already reads 0) changes no byte of the store.  Both operations are total
  functions of the machine: there is no error result, and they never touch \<open>clint_base\<close>.
\<close>

theorem clint_soft_set_clear:
  assumes "unat h < MAX_HARTS"
  shows "is_pending h (clint_send_soft h s) \<and>
         \<not> is_pending h (clint_clear_soft h s) \<and>
         mem (clint_send_soft h (clint_send_soft h s)) = mem (clint_send_soft h s) \<and>
         mem (clint_clear_soft h (clint_clear_soft h s)) = mem (clint_clear_soft h s) \<and>
         clint_base (clint_send_soft h s) = clint_base s \<and>
         clint_base (clint_clear_soft h s) = clint_base s \<and>
         (fst (clint_check_soft h s) = 1 \<longrightarrow> mem (clint_send_soft h s) = mem s) \<and>
         (fst (clint_check_soft h s) = 0 \<longrightarrow> mem (clint_clear_soft h s) = mem s)"
proof -
  have "fst (clint_check_soft h s) = v \<Longrightarrow>
        store32 (mem s) (CLINT_SOFT (clint_base s) h) v = mem s" for v
    using store32_load32 [of "mem s" "CLINT_SOFT (clint_base s) h"]
    by (simp add: clint_defs io_defs)
  then have "fst (clint_check_soft h s) = 1 \<longrightarrow> mem (clint_send_soft h s) = mem s"
    and "fst (clint_check_soft h s) = 0 \<longrightarrow> mem (clint_clear_soft h s) = mem s"
    by (auto simp: clint_defs io_defs)
  then show ?thesis
    by (simp add: clint_defs io_defs load32_store32_same store32_idem)
qed

theorem clint_soft_set_clear_witness:
  "unat (2 :: 64 word) < MAX_HARTS \<and>
   is_pending 2 (clint_send_soft 2 hart_file) \<and>
   \<not> is_pending 2 (clint_clear_soft 2 hart_file) \<and>
   fst (clint_check_soft 2 hart_file) = 0 \<and>
   mem (clint_clear_soft 2 hart_file) = mem hart_file \<and>
   fst (clint_check_soft 2 (clint_send_soft 2 hart_file)) = 1 \<and>
   mem (clint_send_soft 2 (clint_send_soft 2 hart_file)) = mem (clint_send_soft 2 hart_file)"
proof -
  have h: "unat (2 :: 64 word) < MAX_HARTS" by (simp add: MAX_HARTS_def)
  have z: "fst (clint_check_soft 2 hart_file) = 0"
    by (simp add: clint_defs io_defs hart_file_def load32_def)
  have o: "fst (clint_check_soft 2 (clint_send_soft 2 hart_file)) = 1"
    by (simp add: clint_defs io_defs load32_store32_same)
  from clint_soft_set_clear [OF h, of hart_file] h z o show ?thesis by simp
qed

text \<open>
  Claim C6.  For two distinct hart ids \<open>g\<close> and \<open>h\<close> below \<open>MAX_HARTS\<close>, raising or clearing the
  bit of \<open>h\<close> leaves the bit of \<open>g\<close> as it was.  In particular, from any state in which harts 1,
  3 and 4 are not pending, raising hart 2 gives a state in which hart 2 is pending and harts
  1, 3 and 4 are not.
\<close>

theorem clint_soft_frame:
  "(unat g < MAX_HARTS \<and> unat h < MAX_HARTS \<and> g \<noteq> h \<longrightarrow>
      is_pending g (clint_send_soft h s) = is_pending g s \<and>
      is_pending g (clint_clear_soft h s) = is_pending g s) \<and>
   (\<not> is_pending 1 s \<and> \<not> is_pending 3 s \<and> \<not> is_pending 4 s \<longrightarrow>
      is_pending 2 (clint_send_soft 2 s) \<and> \<not> is_pending 1 (clint_send_soft 2 s) \<and>
      \<not> is_pending 3 (clint_send_soft 2 s) \<and> \<not> is_pending 4 (clint_send_soft 2 s))"
proof -
  have frame: "is_pending g (clint_send_soft h s) = is_pending g s \<and>
      is_pending g (clint_clear_soft h s) = is_pending g s"
    if "unat g < MAX_HARTS" "unat h < MAX_HARTS" "g \<noteq> h" for g h
    by (simp add: clint_defs io_defs load32_store32_msip [OF that])
  have "is_pending 2 (clint_send_soft 2 s)"
    by (simp add: clint_defs io_defs load32_store32_same)
  moreover have "is_pending 1 (clint_send_soft 2 s) = is_pending 1 s"
    "is_pending 3 (clint_send_soft 2 s) = is_pending 3 s"
    "is_pending 4 (clint_send_soft 2 s) = is_pending 4 s"
    using frame [of 1 2] frame [of 3 2] frame [of 4 2] by (simp_all add: MAX_HARTS_def)
  ultimately show ?thesis using frame [of g h] by simp
qed

theorem clint_soft_frame_witness:
  "unat (1 :: 64 word) < MAX_HARTS \<and> unat (2 :: 64 word) < MAX_HARTS \<and> (1 :: 64 word) \<noteq> 2 \<and>
   \<not> is_pending 1 hart_file \<and> \<not> is_pending 3 hart_file \<and> \<not> is_pending 4 hart_file \<and>
   is_pending 2 (clint_send_soft 2 hart_file) \<and> \<not> is_pending 1 (clint_send_soft 2 hart_file) \<and>
   \<not> is_pending 3 (clint_send_soft 2 hart_file) \<and> \<not> is_pending 4 (clint_send_soft 2 hart_file) \<and>
   is_pending 1 (clint_clear_soft 2 (clint_send_soft 1 hart_file))"
proof -
  have h: "unat (1 :: 64 word) < MAX_HARTS" "unat (2 :: 64 word) < MAX_HARTS" "(1 :: 64 word) \<noteq> 2"
    by (simp_all add: MAX_HARTS_def)
  have z: "\<not> is_pending 1 hart_file" "\<not> is_pending 3 hart_file" "\<not> is_pending 4 hart_file"
    by (simp_all add: clint_defs io_defs hart_file_def load32_def)
  have p: "is_pending 1 (clint_send_soft 1 hart_file)"
    by (simp add: clint_defs io_defs load32_store32_same)
  from clint_soft_frame [of 1 2 hart_file] clint_soft_frame [of 1 2 "clint_send_soft 1 hart_file"]
    h z p show ?thesis by simp
qed

section \<open>The two byte copies\<close>

lemma word_pred_le: "n \<noteq> 0 \<Longrightarrow> n - 1 \<le> (n :: 64 word)"
  by (simp add: word_le_nat_alt unat_minus_one)

lemma word_pred_less_iff:
  fixes x n :: "64 word"
  assumes "x \<noteq> 0" "n \<noteq> 0"
  shows "x - 1 < n - 1 \<longleftrightarrow> x < n"
proof -
  have "0 < unat x" "0 < unat n" using assms by (simp_all add: unat_gt_0)
  then show ?thesis using assms by (auto simp: word_less_nat_alt unat_minus_one)
qed

declare memcpy_loop.simps [simp del] smp_memcpy_loop.simps [simp del]

lemmas byte_defs = raw_readb_def raw_writeb_def readb_def writeb_def fence_def log_def

lemma smp_memcpy_loop_mem:
  "mem m = mem m' \<Longrightarrow> mem (smp_memcpy_loop d s n m) = mem (memcpy_loop d s n m')"
proof (induction d s n m arbitrary: m' rule: smp_memcpy_loop.induct)
  case (1 d s n m)
  show ?case
  proof (cases "0 < n")
    case True
    have "mem (writeb (readb s) d m) = mem (raw_writeb (mem m' s) d (snd (raw_readb s m')))"
      using "1.prems" by (simp add: byte_defs)
    from "1.IH" [OF True this] True show ?thesis
      by (simp add: smp_memcpy_loop.simps [of d s n] memcpy_loop.simps [of d s n] raw_readb_def)
  next
    case False
    with "1.prems" show ?thesis
      by (simp add: smp_memcpy_loop.simps [of d s n] memcpy_loop.simps [of d s n])
  qed
qed

lemma forward_safe_step:
  assumes "forward_safe d s n" "0 < n"
  shows "forward_safe (d + 1) (s + 1) (n - 1)"
proof -
  have "n - 1 \<le> n" using assms(2) by (simp add: word_pred_le word_gt_0)
  with assms(1) show ?thesis by (auto simp: forward_safe_def)
qed

lemma memcpy_loop_mem:
  assumes "forward_safe d s n"
  shows "mem (memcpy_loop d s n m) a = (if a - d < n then mem m (s + (a - d)) else mem m a)"
  using assms
proof (induction d s n m rule: memcpy_loop.induct)
  case (1 d s n m)
  show ?case
  proof (cases "0 < n")
    case False
    then have "n = 0" by (simp add: word_gt_0)
    then show ?thesis by (subst memcpy_loop.simps) simp
  next
    case True
    define m1 where "m1 = raw_writeb (mem m s) d (snd (raw_readb s m))"
    have m1: "mem m1 = (mem m)(d := mem m s)" by (simp add: m1_def byte_defs)
    have step: "memcpy_loop d s n m = memcpy_loop (d + 1) (s + 1) (n - 1) m1"
      using True by (simp add: memcpy_loop.simps [of d s n] m1_def raw_readb_def)
    have IH: "mem (memcpy_loop (d + 1) (s + 1) (n - 1) m1) a =
        (if a - (d + 1) < n - 1 then mem m1 (s + 1 + (a - (d + 1))) else mem m1 a)"
      using "1.IH" [OF True refl _ forward_safe_step [OF "1.prems" True],
          of "mem m s" "snd (raw_readb s m)"]
      by (simp add: m1_def raw_readb_def)
    show ?thesis
    proof (cases "a = d")
      case True
      have "\<not> (d - (d + 1) < n - 1)" by (simp add: not_less)
      with True \<open>0 < n\<close> IH show ?thesis by (simp add: step m1)
    next
      case False
      then have ad: "a - d \<noteq> 0" by simp
      have "a - d - 1 < n - 1 \<longleftrightarrow> a - d < n"
        using ad \<open>0 < n\<close> by (intro word_pred_less_iff) (simp_all add: word_gt_0)
      moreover have "a - (d + 1) = a - d - 1" by simp
      ultimately have lt: "a - (d + 1) < n - 1 \<longleftrightarrow> a - d < n"
        by (simp only:)
      have "s + (a - d) \<noteq> d" if "a - d < n"
      proof
        assume "s + (a - d) = d"
        then have "a - d = d - s" by (metis add_diff_cancel_left')
        with that ad "1.prems" show False by (auto simp: forward_safe_def not_le [symmetric])
      qed
      with False lt IH show ?thesis by (auto simp: step m1 algebra_simps)
    qed
  qed
qed

text \<open>
  Claim C10, amended.  For every destination, source and length, \<open>smp_memcpy\<close> and \<open>memcpy\<close>
  leave the same store and both return \<open>dst\<close>.  When the forward copy is safe (the
  destination does not start inside the source range), that store holds the \<open>n\<close> bytes of
  the source at the destination and is unchanged everywhere else.
\<close>

theorem smp_memcpy_refines_memcpy:
  "mem (snd (smp_memcpy dst src n s)) = mem (snd (memcpy dst src n s)) \<and>
   fst (smp_memcpy dst src n s) = dst \<and> fst (memcpy dst src n s) = dst \<and>
   (forward_safe dst src n \<longrightarrow>
      (\<forall>a. mem (snd (memcpy dst src n s)) a =
           (if a - dst < n then mem s (src + (a - dst)) else mem s a)))"
  using smp_memcpy_loop_mem [of s s dst src n] memcpy_loop_mem [of dst src n s]
  by (simp add: smp_memcpy_def memcpy_def)

theorem smp_memcpy_refines_memcpy_witness:
  "forward_safe 0x200 0x100 2 \<and>
   mem (snd (smp_memcpy 0x200 0x100 2 overlap_file)) =
     mem (snd (memcpy 0x200 0x100 2 overlap_file)) \<and>
   mem (snd (memcpy 0x200 0x100 2 overlap_file)) 0x200 = 1 \<and>
   mem (snd (memcpy 0x200 0x100 2 overlap_file)) 0x201 = 2 \<and>
   mem (snd (memcpy 0x200 0x100 2 overlap_file)) 0x202 = 0 \<and>
   mem (snd (memcpy 0x200 0x100 2 overlap_file)) 0x101 = 2"
proof -
  have fs: "forward_safe 0x200 0x100 2" by (simp add: forward_safe_def)
  have "\<forall>a. mem (snd (memcpy 0x200 0x100 2 overlap_file)) a =
           (if a - 0x200 < 2 then mem overlap_file (0x100 + (a - 0x200)) else mem overlap_file a)"
    and "mem (snd (smp_memcpy 0x200 0x100 2 overlap_file)) =
           mem (snd (memcpy 0x200 0x100 2 overlap_file))"
    using smp_memcpy_refines_memcpy [of "0x200" "0x100" 2 overlap_file] fs by simp_all
  then show ?thesis using fs by (simp add: overlap_file_def)
qed

text \<open>
  The claim as stated fails when the destination starts inside the source range: copying 2
  bytes from \<open>0x100\<close> (holding 1, 2) to \<open>0x101\<close> stores 1 at \<open>0x102\<close>, not the source byte 2,
  because the first store has already overwritten \<open>0x101\<close>.
\<close>

theorem memcpy_overlap_counterexample:
  "mem overlap_file 0x101 = 2 \<and>
   mem (snd (memcpy 0x101 0x100 2 overlap_file)) 0x102 = 1 \<and>
   mem (snd (smp_memcpy 0x101 0x100 2 overlap_file)) 0x102 = 1"
  by (simp add: memcpy_def smp_memcpy_def overlap_file_def memcpy_loop.simps
      smp_memcpy_loop.simps byte_defs)

section \<open>Strings in the store and the traces of the loops\<close>

lemma log_log [simp]: "log es (log es' m) = log (es' @ es) m"
  by (simp add: log_def)

lemma log_fields [simp]:
  "mem (log es m) = mem m" "clint_base (log es m) = clint_base m"
  "uart_base (log es m) = uart_base m" "uart_tx (log es m) = uart_tx m"
  "uart_rx (log es m) = uart_rx m"
  "mhartid (log es m) = mhartid m" "trace (log es m) = trace m @ es"
  by (simp_all add: log_def)

lemma length_addrs [simp]: "length (addrs a k) = k"
  by (induction k arbitrary: a) simp_all

lemma addrs_nth: "i < k \<Longrightarrow> addrs a k ! i = a + of_nat i"
proof (induction k arbitrary: a i)
  case 0
  then show ?case by simp
next
  case (Suc k)
  show ?case
  proof (cases i)
    case 0
    then show ?thesis by simp
  next
    case (Suc j)
    with Suc.prems have "j < k" by simp
    from Suc.IH [OF this, of "a + 1"] Suc show ?thesis by (simp add: add.assoc)
  qed
qed

lemma set_addrs: "set (addrs a k) = {a + of_nat i | i. i < k}"
proof -
  have "set (addrs a k) = {addrs a k ! i | i. i < length (addrs a k)}"
    by (rule set_conv_nth)
  also have "\<dots> = {a + of_nat i | i. i < k}"
    by (rule Collect_cong) (simp add: addrs_nth cong: rev_conj_cong)
  finally show ?thesis .
qed

lemma cstring_at_bytes:
  "cstring_at m a bs \<Longrightarrow> map m (addrs a (Suc (length bs))) = bs @ [0]"
proof (induction bs arbitrary: a)
  case Nil
  then show ?case by simp
next
  case (Cons b bs)
  from Cons.prems have "cstring_at m (a + 1) bs" by simp
  from Cons.IH [OF this] have "map m (addrs (a + 1) (Suc (length bs))) = bs @ [0]" .
  moreover have "addrs a (Suc (length (b # bs))) = a # addrs (a + 1) (Suc (length bs))"
    by (simp del: addrs.simps add: addrs.simps(2) [of a "Suc (length bs)"])
  ultimately show ?case using Cons.prems by (simp del: addrs.simps)
qed

lemma strlen_loop_cstring:
  "cstring_at (mem m) s bs \<Longrightarrow>
   strlen_loop s cnt m =
     Some (cnt + of_nat (length bs), log (map LoadB (addrs s (Suc (length bs)))) m)"
proof (induction bs arbitrary: s cnt m)
  case Nil
  then show ?case by (subst strlen_loop.simps) (simp add: raw_readb_def)
next
  case (Cons b bs)
  then have "cstring_at (mem (log [LoadB s] m)) (s + 1) bs" by simp
  from Cons.IH [OF this, of "cnt + 1"] Cons.prems show ?case
    by (subst strlen_loop.simps) (simp add: raw_readb_def add.assoc del: addrs.simps add: addrs.simps(2) [of s])
qed

lemma forward_safe_notin:
  assumes "forward_safe d s n" "0 < n"
  shows "d \<notin> set (addrs (s + 1) (unat (n - 1)))"
proof
  assume "d \<in> set (addrs (s + 1) (unat (n - 1)))"
  then obtain i where i: "i < unat (n - 1)" "d = s + 1 + of_nat i"
    by (auto simp: set_addrs)
  have n: "unat (n - 1) = unat n - 1" using assms(2) by (simp add: unat_minus_one word_gt_0)
  have un: "unat n < 2 ^ 64" using unsigned_less [of n, where 'a = nat] by simp
  from i have "d - s = of_nat (Suc i)" by simp
  moreover have "unat (of_nat (Suc i) :: 64 word) = Suc i"
    using i(1) n un by (simp add: unat_of_nat del: of_nat_Suc)
  ultimately have "unat (d - s) = Suc i" by simp
  with i(1) n have "d - s < n" "d - s \<noteq> 0"
    by (auto simp: word_less_nat_alt)
  with assms(1) show False by (auto simp: forward_safe_def not_le [symmetric])
qed

lemma memcpy_loop_trace:
  assumes "forward_safe d s n"
  shows "memcpy_loop d s n m =
     log (copy_events d s (map (mem m) (addrs s (unat n))))
       (m\<lparr>mem := mem (memcpy_loop d s n m)\<rparr>)"
  using assms
proof (induction d s n m rule: memcpy_loop.induct)
  case (1 d s n m)
  show ?case
  proof (cases "0 < n")
    case False
    then have "n = 0" by (simp add: word_gt_0)
    then show ?thesis by (subst (1 2) memcpy_loop.simps) (simp add: log_def)
  next
    case True
    define m1 where "m1 = raw_writeb (mem m s) d (snd (raw_readb s m))"
    have m1: "mem m1 = (mem m)(d := mem m s)" by (simp add: m1_def byte_defs)
    have step: "memcpy_loop d s n m = memcpy_loop (d + 1) (s + 1) (n - 1) m1"
      using True by (simp add: memcpy_loop.simps [of d s n] m1_def raw_readb_def)
    have un: "unat n = Suc (unat (n - 1))"
      using True by (simp add: unat_minus_one word_gt_0 unat_gt_0)
    have same: "map (mem m1) (addrs (s + 1) (unat (n - 1))) =
        map (mem m) (addrs (s + 1) (unat (n - 1)))"
      using forward_safe_notin [OF "1.prems" True] by (auto simp: m1)
    have IH: "memcpy_loop (d + 1) (s + 1) (n - 1) m1 =
       log (copy_events (d + 1) (s + 1) (map (mem m1) (addrs (s + 1) (unat (n - 1)))))
         (m1\<lparr>mem := mem (memcpy_loop (d + 1) (s + 1) (n - 1) m1)\<rparr>)"
      using "1.IH" [OF True refl _ forward_safe_step [OF "1.prems" True],
          of "mem m s" "snd (raw_readb s m)"]
      by (simp add: m1_def raw_readb_def)
    have "memcpy_loop d s n m =
       log (copy_events (d + 1) (s + 1) (map (mem m) (addrs (s + 1) (unat (n - 1)))))
         (m1\<lparr>mem := mem (memcpy_loop d s n m)\<rparr>)"
      using IH by (simp add: step same)
    also have "\<dots> = log (copy_events d s (map (mem m) (addrs s (unat n))))
       (m\<lparr>mem := mem (memcpy_loop d s n m)\<rparr>)"
      by (simp add: un m1_def byte_defs)
    finally show ?thesis .
  qed
qed

lemma stores_of_append [simp]: "stores_of (xs @ ys) = stores_of xs @ stores_of ys"
  by (simp add: stores_of_def)

lemma output_of_append [simp]: "output_of (xs @ ys) = output_of xs @ output_of ys"
  by (simp add: output_of_def)

lemma stores_of_copy_events: "stores_of (copy_events d s vs) = zip (addrs d (length vs)) vs"
  by (induction vs arbitrary: d s) (simp_all add: stores_of_def)

lemma fences_copy_events: "filter is_fence (copy_events d s vs) = []"
  by (induction vs arbitrary: d s) simp_all

lemma stores_of_map_LoadB [simp]: "stores_of (map LoadB as) = []"
  by (induction as) (simp_all add: stores_of_def)

lemma fences_map_LoadB [simp]: "filter is_fence (map LoadB as) = []"
  by (induction as) simp_all

lemma stores_of_Cons_simps [simp]:
  "stores_of [] = []"
  "stores_of (StoreB a b # es) = (a, b) # stores_of es"
  "stores_of (Putc b # es) = stores_of es"
  "stores_of (CsrMip # es) = stores_of es"
  "stores_of (Wfi # es) = stores_of es"
  "stores_of (Fence p q # es) = stores_of es"
  "stores_of (LoadB a # es) = stores_of es"
  "stores_of (LoadW a # es) = stores_of es"
  "stores_of (StoreW a w # es) = stores_of es"
  by (simp_all add: stores_of_def)

lemma output_of_Cons_simps [simp]:
  "output_of [] = []"
  "output_of (Putc b # es) = b # output_of es"
  "output_of (CsrMip # es) = output_of es"
  "output_of (Wfi # es) = output_of es"
  "output_of (Fence p q # es) = output_of es"
  "output_of (LoadB a # es) = output_of es"
  "output_of (LoadW a # es) = output_of es"
  "output_of (StoreB a b # es) = output_of es"
  "output_of (StoreW a w # es) = output_of es"
  by (simp_all add: output_of_def)

subsection \<open>Output to the UART\<close>

lemma tx_only_refl: "tx_only s s []"
  by (simp add: tx_only_def)

lemma tx_only_trans:
  assumes "tx_only s s1 o1" "tx_only s1 s2 o2"
  shows "tx_only s s2 (o1 @ o2)"
proof -
  from assms obtain e1 e2 where
    "trace s1 = trace s @ e1" "stores_of e1 = []" "output_of e1 = o1"
    "trace s2 = trace s1 @ e2" "stores_of e2 = []" "output_of e2 = o2"
    by (auto simp: tx_only_def)
  then have "trace s2 = trace s @ (e1 @ e2) \<and> stores_of (e1 @ e2) = [] \<and>
      output_of (e1 @ e2) = o1 @ o2"
    by simp
  then have "\<exists>es. trace s2 = trace s @ es \<and> stores_of es = [] \<and> output_of es = o1 @ o2"
    by (rule exI)
  with assms show ?thesis by (simp add: tx_only_def)
qed

lemma tx_only_log: "stores_of es = [] \<Longrightarrow> tx_only s (log es s) (output_of es)"
  by (simp add: tx_only_def)

lemma tx_only_get_reg: "tx_only s (snd (get_reg UART_REG_TXDATA s)) []"
proof -
  have "\<exists>es. trace s @ [LoadW (uart_reg UART_REG_TXDATA s), Fence FI FR] = trace s @ es \<and>
      stores_of es = [] \<and> output_of es = []"
    by (rule exI [of _ "[LoadW (uart_reg UART_REG_TXDATA s), Fence FI FR]"]) simp
  then show ?thesis
    by (simp add: tx_only_def get_reg_def readw_def raw_readw_def fence_def Let_def
        split: list.splits)
qed

declare uart_tx_wait.simps [simp del]

lemma tx_only_uart_tx_wait: "tx_only s (uart_tx_wait s) []"
proof (induction s rule: uart_tx_wait.induct)
  case (1 s)
  show ?case
  proof (cases "fst (get_reg UART_REG_TXDATA s) AND UART_TXDATA_FULL \<noteq> 0")
    case True
    then have "uart_tx_wait s = uart_tx_wait (snd (get_reg UART_REG_TXDATA s))"
      by (subst uart_tx_wait.simps) (simp add: case_prod_unfold)
    moreover have "tx_only (snd (get_reg UART_REG_TXDATA s))
        (uart_tx_wait (snd (get_reg UART_REG_TXDATA s))) []"
      using "1.IH" [OF refl prod.collapse True] .
    ultimately show ?thesis using tx_only_trans [OF tx_only_get_reg] by fastforce
  next
    case False
    then have "uart_tx_wait s = snd (get_reg UART_REG_TXDATA s)"
      by (subst uart_tx_wait.simps) (simp add: case_prod_unfold)
    then show ?thesis by (simp add: tx_only_get_reg)
  qed
qed

lemma tx_only_set_reg: "tx_only s (set_reg UART_REG_TXDATA v s) [ucast v]"
proof -
  have "\<exists>es. trace s @ [Fence FW FO, StoreW (uart_reg UART_REG_TXDATA s) v, Putc (ucast v)] =
        trace s @ es \<and> stores_of es = [] \<and> output_of es = [ucast v]"
    by (rule exI [of _ "[Fence FW FO, StoreW (uart_reg UART_REG_TXDATA s) v, Putc (ucast v)]"])
      simp
  then show ?thesis by (simp add: tx_only_def set_reg_def fence_def Let_def)
qed

lemma ucast_ucast_byte [simp]: "(ucast (ucast (ch :: byte) :: 32 word) :: byte) = ch"
  by (rule bit_word_eqI) (auto simp: bit_simps)

lemma tx_only_uart_putc: "tx_only s (uart_putc ch s) [ch]"
  using tx_only_trans [OF tx_only_uart_tx_wait tx_only_set_reg, of s "ucast ch"]
  by (simp add: uart_putc_def)

lemma tx_only_fold_putc: "tx_only s (fold (\<lambda>c. uart_putc (f c)) cs s) (map f cs)"
proof (induction cs arbitrary: s)
  case Nil
  show ?case by (simp add: tx_only_refl)
next
  case (Cons c cs)
  from tx_only_trans [OF tx_only_uart_putc Cons.IH] show ?case by simp
qed

lemma tx_only_uart_puts_lit: "tx_only s (uart_puts_lit cs s) (map of_char cs)"
  unfolding uart_puts_lit_def by (rule tx_only_fold_putc)

lemma tx_only_uart_put_hex: "\<exists>out. tx_only s (uart_put_hex hex s) out"
  unfolding uart_put_hex_def
  using tx_only_trans [OF tx_only_uart_puts_lit tx_only_fold_putc] by blast

lemma tx_only_puts_lit: "tx_only s (puts_lit cs s) (puts_bytes (mhartid s) cs)"
proof -
  define s1 where "s1 = uart_puts_lit (CHR 0x0D # CHR 0x0A # ''[HART '') s"
  define s2 where "s2 = uart_putc (0x30 + ucast (mhartid s1)) s1"
  define s3 where "s3 = uart_puts_lit ''] '' s2"
  have 1: "tx_only s s1 (map of_char (CHR 0x0D # CHR 0x0A # ''[HART ''))"
    unfolding s1_def by (rule tx_only_uart_puts_lit)
  then have h: "mhartid s1 = mhartid s" by (simp add: tx_only_def)
  have 2: "tx_only s1 s2 [0x30 + ucast (mhartid s)]"
    unfolding s2_def h by (rule tx_only_uart_putc)
  have 3: "tx_only s2 s3 (map of_char ''] '')"
    unfolding s3_def by (rule tx_only_uart_puts_lit)
  have 4: "tx_only s3 (uart_puts_lit cs s3) (map of_char cs)"
    by (rule tx_only_uart_puts_lit)
  have "puts_lit cs s = uart_puts_lit cs s3"
    by (simp add: puts_lit_def s1_def s2_def s3_def Let_def)
  with tx_only_trans [OF tx_only_trans [OF tx_only_trans [OF 1 2] 3] 4]
  show ?thesis by (simp add: puts_bytes_def)
qed

lemma uart_puts_cstring:
  "cstring_at (mem m) s bs \<Longrightarrow> \<exists>m'. uart_puts s m = Some m' \<and> tx_only m m' bs"
proof (induction bs arbitrary: s m)
  case Nil
  then have "uart_puts s m = Some (log [LoadB s] m)"
    by (subst uart_puts.simps) (simp add: raw_readb_def)
  moreover have "tx_only m (log [LoadB s] m) []"
    using tx_only_log [of "[LoadB s]" m] by simp
  ultimately show ?case by blast
next
  case (Cons b bs)
  define m1 where "m1 = uart_putc b (log [LoadB s, LoadB s] m)"
  have t: "tx_only m m1 [b]"
    using tx_only_trans [OF tx_only_log tx_only_uart_putc, of "[LoadB s, LoadB s]" m b]
    by (simp add: m1_def)
  then have "cstring_at (mem m1) (s + 1) bs" using Cons.prems by (simp add: tx_only_def)
  from Cons.IH [OF this] obtain m' where m': "uart_puts (s + 1) m1 = Some m'" "tx_only m1 m' bs"
    by blast
  have "uart_puts s m = uart_puts (s + 1) m1"
    using Cons.prems by (subst uart_puts.simps) (simp add: raw_readb_def m1_def)
  with m' tx_only_trans [OF t m'(2)] show ?case by simp
qed

section \<open>MailboxChannel: sending\<close>

lemma unat_len_succ:
  assumes "n < 2 ^ 64 - 1"
  shows "unat (of_nat n + 1 :: 64 word) = Suc n"
proof -
  have "unat (of_nat (Suc n) :: 64 word) = Suc n"
    using assms by (simp add: unat_of_nat del: of_nat_Suc)
  then show ?thesis by (simp add: add.commute)
qed

lemma test_ipi_send_cstring:
  assumes "cstring_at (mem s) m bs" "length bs < 2 ^ 64 - 1"
    "forward_safe SMP_ADDR m (of_nat (length bs) + 1)"
  shows "\<exists>s2 mid. test_ipi_send h m s = Some (clint_send_soft h s2) \<and>
     mem s2 = mem (memcpy_loop SMP_ADDR m (of_nat (length bs) + 1) s) \<and>
     clint_base s2 = clint_base s \<and> mhartid s2 = mhartid s \<and> uart_rx s2 = uart_rx s \<and>
     trace s2 = trace s @ map LoadB (addrs m (Suc (length bs))) @
       copy_events SMP_ADDR m (bs @ [0]) @ mid \<and>
     stores_of mid = []"
proof -
  define s1 where "s1 = log (map LoadB (addrs m (Suc (length bs)))) s"
  define n :: "64 word" where "n = of_nat (length bs) + 1"
  note fs = assms(3) [folded n_def]
  have len: "strlen m s = Some (of_nat (length bs), s1)"
    using strlen_loop_cstring [OF assms(1), of 0] by (simp add: strlen_def s1_def)
  have un: "unat n = Suc (length bs)" unfolding n_def by (rule unat_len_succ [OF assms(2)])
  have bytes: "map (mem s1) (addrs m (unat n)) = bs @ [0]"
    using cstring_at_bytes [OF assms(1)] by (simp add: un s1_def)
  have "mem s1 = mem s" by (simp add: s1_def)
  have memeq: "mem (memcpy_loop SMP_ADDR m n s1) = mem (memcpy_loop SMP_ADDR m n s)"
    using memcpy_loop_mem [OF fs, of s1] memcpy_loop_mem [OF fs, of s]
    by (auto simp: \<open>mem s1 = mem s\<close>)
  define sc where "sc = memcpy_loop SMP_ADDR m n s1"
  have copy: "sc =
      log (copy_events SMP_ADDR m (bs @ [0])) (s1\<lparr>mem := mem (memcpy_loop SMP_ADDR m n s)\<rparr>)"
    unfolding sc_def using memcpy_loop_trace [OF fs, of s1] by (simp add: bytes memeq)
  define s3 where "s3 = puts_lit ''Send software interrupt. Hartid='' sc"
  define s4 where "s4 = uart_put_hex (ucast h) s3"
  obtain out where "tx_only s3 s4 out" unfolding s4_def using tx_only_uart_put_hex by blast
  moreover have "tx_only sc s3 (puts_bytes (mhartid sc) ''Send software interrupt. Hartid='')"
    unfolding s3_def by (rule tx_only_puts_lit)
  ultimately have "\<exists>o3. tx_only sc s4 o3" using tx_only_trans by blast
  then obtain mid where mid: "mem s4 = mem sc" "clint_base s4 = clint_base sc"
    "mhartid s4 = mhartid sc" "uart_rx s4 = uart_rx sc"
    "trace s4 = trace sc @ mid" "stores_of mid = []"
    by (auto simp: tx_only_def)
  have "test_ipi_send h m s = Some (clint_send_soft h s4)"
    by (simp add: test_ipi_send_def len memcpy_def n_def [symmetric] sc_def [symmetric]
        s3_def [symmetric] s4_def [symmetric])
  moreover have "mem s4 = mem (memcpy_loop SMP_ADDR m n s)" "clint_base s4 = clint_base s"
    "mhartid s4 = mhartid s" "uart_rx s4 = uart_rx s"
    "trace s4 = trace s @ map LoadB (addrs m (Suc (length bs))) @
       copy_events SMP_ADDR m (bs @ [0]) @ mid"
    by (simp_all add: mid copy s1_def del: addrs.simps)
  ultimately show ?thesis using mid(6) unfolding n_def by blast
qed

lemma cstring_at_iff_nth:
  "cstring_at m a bs \<longleftrightarrow>
     (\<forall>i<length bs. bs ! i \<noteq> 0 \<and> m (a + of_nat i) = bs ! i) \<and> m (a + of_nat (length bs)) = 0"
proof (induction bs arbitrary: a)
  case Nil
  show ?case by simp
next
  case (Cons b bs)
  show ?case by (simp add: Cons.IH All_less_Suc2 add.assoc)
qed

lemma unat_of_nat_small: "i < 2 ^ 64 \<Longrightarrow> unat (of_nat i :: 64 word) = i"
  by (simp add: unat_of_nat)

lemma cstring_at_hi_file: "cstring_at (mem hi_file) 0x80000000 [0x68, 0x69]"
  by (simp add: hi_file_def)

lemma forward_safe_hi_file:
  "forward_safe SMP_ADDR 0x80000000 (of_nat (length [0x68, 0x69 :: byte]) + 1)"
  by (simp add: forward_safe_def SMP_ADDR_def)


lemma trace_clint_send_soft:
  "trace (clint_send_soft h s) = trace s @ [Fence FW FO, StoreW (CLINT_SOFT (clint_base s) h) 1]"
  by (simp add: clint_defs io_defs)

text \<open>
  Claim C4, amended.  The sending part of \<open>test_ipi\<close> writes the message bytes and the
  trailing zero with the plain byte stores of \<open>memcpy\<close>, one byte at a time, and issues no
  fence before or among them: the events \<open>pre\<close> of \<open>strlen\<close> and of the copy contain no fence
  and store exactly the bytes \<open>bs\<close> and the zero at consecutive addresses from \<open>SMP_ADDR\<close> on.
  After them come only the register accesses \<open>mid\<close> of the output to the UART (\<open>puts\<close>,
  \<open>uart_put_hex\<close>), which store no byte, and then the \<open>fence(w, o)\<close> that \<open>clint_send_soft\<close>
  issues immediately before the store that sets the target's pending bit.
\<close>

theorem test_ipi_send_single_fence:
  assumes "cstring_at (mem s) m bs" "length bs < 2 ^ 64 - 1"
    "forward_safe SMP_ADDR m (of_nat (length bs) + 1)"
  shows "\<exists>s' pre mid. test_ipi_send h m s = Some s' \<and>
           trace s' = trace s @ pre @ mid @
             [Fence FW FO, StoreW (CLINT_SOFT (clint_base s) h) 1] \<and>
           filter is_fence pre = [] \<and>
           stores_of pre = zip (addrs SMP_ADDR (Suc (length bs))) (bs @ [0]) \<and>
           stores_of mid = []"
proof -
  from test_ipi_send_cstring [OF assms, of h] obtain s2 mid where
    s': "test_ipi_send h m s = Some (clint_send_soft h s2)" and
    cb: "clint_base s2 = clint_base s" and
    tr: "trace s2 = trace s @ map LoadB (addrs m (Suc (length bs))) @
       copy_events SMP_ADDR m (bs @ [0]) @ mid" and
    mid: "stores_of mid = []"
    by blast
  define pre where
    "pre = map LoadB (addrs m (Suc (length bs))) @ copy_events SMP_ADDR m (bs @ [0])"
  have "trace (clint_send_soft h s2) =
      trace s @ pre @ mid @ [Fence FW FO, StoreW (CLINT_SOFT (clint_base s) h) 1]"
    by (simp add: trace_clint_send_soft tr cb pre_def del: addrs.simps)
  moreover have "filter is_fence pre = []"
    by (simp add: pre_def fences_copy_events del: addrs.simps)
  moreover have "stores_of pre = zip (addrs SMP_ADDR (Suc (length bs))) (bs @ [0])"
    by (simp add: pre_def stores_of_copy_events del: addrs.simps)
  ultimately show ?thesis using s' mid by blast
qed

theorem test_ipi_send_single_fence_witness:
  "cstring_at (mem hi_file) 0x80000000 [0x68, 0x69] \<and>
   (\<exists>s' pre mid. test_ipi_send 1 0x80000000 hi_file = Some s' \<and>
      trace s' = pre @ mid @ [Fence FW FO, StoreW 0x2000004 1] \<and>
      filter is_fence pre = [] \<and>
      stores_of pre = [(0x80100000, 0x68), (0x80100001, 0x69), (0x80100002, 0)] \<and>
      stores_of mid = [])"
proof -
  have len: "length [0x68, 0x69 :: byte] < 2 ^ 64 - 1" by simp
  from test_ipi_send_single_fence [OF cstring_at_hi_file len forward_safe_hi_file, of 1]
  show ?thesis using cstring_at_hi_file
    by (simp add: hi_file_def SMP_ADDR_def CLINT_SOFT_def CLINT_CTRL_ADDR_def
        CLINT_MSIP_SIZE_def CLINT_MSIP_OFFSET_def)
qed

text \<open>
  The claim as stated fails: the byte stores of the send are not individually fenced (already
  the first one has no \<open>fence(w, o)\<close> before it), while those of \<open>smp_memcpy\<close>, which the
  send does not call, are.
\<close>

theorem test_ipi_send_unfenced_counterexample:
  "test_ipi_send 1 0x80000000 hi_file \<noteq> None \<and>
   \<not> fenced_stores False (trace_of (test_ipi_send 1 0x80000000 hi_file)) \<and>
   fenced_stores False (trace (snd (smp_memcpy SMP_ADDR 0x80000000 3 hi_file)))"
proof -
  have len: "length [0x68, 0x69 :: byte] < 2 ^ 64 - 1" by simp
  from test_ipi_send_cstring [OF cstring_at_hi_file len forward_safe_hi_file, of 1]
  obtain s2 mid where s': "test_ipi_send 1 0x80000000 hi_file = Some (clint_send_soft 1 s2)"
    and tr: "trace s2 = trace hi_file @ map LoadB (addrs 0x80000000 (Suc (length [0x68, 0x69 :: byte])))
       @ copy_events SMP_ADDR 0x80000000 ([0x68, 0x69] @ [0]) @ mid"
    by blast
  have "\<not> fenced_stores False (trace_of (test_ipi_send 1 0x80000000 hi_file))"
    unfolding s' trace_of_def by (simp add: trace_clint_send_soft tr hi_file_def)
  moreover have "fenced_stores False (trace (snd (smp_memcpy SMP_ADDR 0x80000000 3 hi_file)))"
    by (simp add: smp_memcpy_def smp_memcpy_loop.simps byte_defs hi_file_def)
  ultimately show ?thesis using s' by simp
qed

section \<open>MailboxChannel: the round trip\<close>

lemma mailbox_msip_sep:
  fixes h j :: "64 word"
  assumes "i \<le> SMP_SIZE" "unat h < MAX_HARTS" "j < 4"
  shows "SMP_ADDR + of_nat i \<noteq> CLINT_SOFT CLINT_CTRL_ADDR h + j"
proof -
  have j: "unat j < 4" using assms(3) by (simp add: word_less_nat_alt)
  have "unat (of_nat i :: 64 word) = i"
    using assms(1) by (simp add: unat_of_nat SMP_SIZE_def)
  then have a: "unat (SMP_ADDR + of_nat i) = 0x80100000 + i"
    using assms(1) by (simp add: unat_word_ariths SMP_ADDR_def SMP_SIZE_def)
  have "unat (h * 4) = unat h * 4"
    using assms(2) by (simp add: unat_word_ariths MAX_HARTS_def)
  then have "unat (0x2000000 + h * 4) = 0x2000000 + unat h * 4"
    using assms(2) by (simp add: unat_word_ariths MAX_HARTS_def)
  then have "unat (0x2000000 + h * 4 + j) = 0x2000000 + unat h * 4 + unat j"
    using assms(2) j by (simp add: unat_word_ariths(1) [of "0x2000000 + h * 4" j] MAX_HARTS_def)
  then have b: "unat (CLINT_SOFT CLINT_CTRL_ADDR h + j) < 0x80100000"
    using assms(2) j
    by (simp add: CLINT_SOFT_def CLINT_CTRL_ADDR_def CLINT_MSIP_SIZE_def CLINT_MSIP_OFFSET_def
        MAX_HARTS_def)
  show ?thesis
  proof
    assume "SMP_ADDR + of_nat i = CLINT_SOFT CLINT_CTRL_ADDR h + j"
    then have "unat (SMP_ADDR + of_nat i) = unat (CLINT_SOFT CLINT_CTRL_ADDR h + j)" by simp
    with a b show False by simp
  qed
qed

lemma store32_mailbox:
  assumes "i \<le> SMP_SIZE" "unat h < MAX_HARTS"
  shows "store32 M (CLINT_SOFT CLINT_CTRL_ADDR h) v (SMP_ADDR + of_nat i) = M (SMP_ADDR + of_nat i)"
  using mailbox_msip_sep [OF assms, of 0] mailbox_msip_sep [OF assms, of 1]
    mailbox_msip_sep [OF assms, of 2] mailbox_msip_sep [OF assms, of 3]
  by (simp add: store32_def)

lemma memcpy_loop_cstring:
  assumes "cstring_at (mem s) m bs" "length bs < 2 ^ 64 - 1" "forward_safe d m (of_nat (length bs) + 1)"
  shows "cstring_at (mem (memcpy_loop d m (of_nat (length bs) + 1) s)) d bs"
proof -
  have "mem (memcpy_loop d m (of_nat (length bs) + 1) s) (d + of_nat i) = mem s (m + of_nat i)"
    if "i \<le> length bs" for i
  proof -
    have "unat (of_nat i :: 64 word) = i" using that assms(2) by (simp add: unat_of_nat)
    then have "(of_nat i :: 64 word) < of_nat (length bs) + 1"
      using that unat_len_succ [OF assms(2)] by (simp add: word_less_nat_alt)
    then show ?thesis by (simp add: memcpy_loop_mem [OF assms(3)])
  qed
  with assms(1) show ?thesis by (simp add: cstring_at_iff_nth)
qed

lemma MIP_MSIP_test [simp]: "MIP_MSIP \<noteq> 0"
  by (simp add: MIP_MSIP_def)

lemma wait_ipi_pending:
  assumes "msip_line s"
  shows "wait_ipi hartid sched s = Some (sched, clint_clear_soft hartid (log [CsrMip] s))"
  using assms by (cases sched) (simp_all add: wait_ipi_def read_csr_mip_def)

text \<open>
  Claim C3.  Let the message \<open>bs\<close> (no zero byte, shorter than the capacity \<open>SMP_SIZE\<close>) stand
  zero-terminated in a buffer that allows the forward copy to the mailbox, let the
  controller be initialised and \<open>h\<close> be a hart id below \<open>MAX_HARTS\<close>.  Then the send to \<open>h\<close>
  succeeds and, with no other hart acting in between, the next round of \<open>other_main\<close> on hart
  \<open>h\<close> wakes at once and sends to the UART its two fixed banners followed by exactly the bytes
  \<open>bs\<close>, none added and none missing.
\<close>

theorem mailbox_round_trip:
  assumes "cstring_at (mem s) m bs" "length bs < SMP_SIZE"
    "forward_safe SMP_ADDR m (of_nat (length bs) + 1)"
    "clint_base s = CLINT_CTRL_ADDR" "unat h < MAX_HARTS"
  shows "\<exists>s1 s'. test_ipi_send h m s = Some s1 \<and>
           other_main_round h [] (seen_by h s1) = Some ([], s') \<and>
           output_of (trace s') =
             puts_bytes h ''Software interrupt from Hart 0'' @
             puts_bytes h ''Message from Hart 0: '' @ bs"
proof -
  let ?a = "CLINT_SOFT CLINT_CTRL_ADDR h"
  let ?M = "mem (memcpy_loop SMP_ADDR m (of_nat (length bs) + 1) s)"
  have len: "length bs < 2 ^ 64 - 1" using assms(2) by (simp add: SMP_SIZE_def)
  from test_ipi_send_cstring [OF assms(1) len assms(3), of h] obtain s0 where
    s1: "test_ipi_send h m s = Some (clint_send_soft h s0)" and
    s0: "mem s0 = ?M" "clint_base s0 = clint_base s"
    by blast
  define v where "v = seen_by h (clint_send_soft h s0)"
  have v: "mem v = store32 ?M ?a 1" "clint_base v = CLINT_CTRL_ADDR" "mhartid v = h" "trace v = []"
    by (simp_all add: v_def seen_by_def clint_defs io_defs assms(4) s0)
  have line: "msip_line v"
    by (simp add: msip_line_def v load32_store32_same)
  define s2 where "s2 = clint_clear_soft h (log [CsrMip] v)"
  have w: "wait_ipi h [] v = Some ([], s2)"
    unfolding s2_def by (rule wait_ipi_pending [OF line])
  have s2: "mem s2 = store32 (store32 ?M ?a 1) ?a 0" "mhartid s2 = h"
    "output_of (trace s2) = []"
    by (simp_all add: s2_def clint_defs io_defs v)
  define s3 where
    "s3 = puts_lit ''Message from Hart 0: '' (puts_lit ''Software interrupt from Hart 0'' s2)"
  have "tx_only (puts_lit ''Software interrupt from Hart 0'' s2) s3
      (puts_bytes h ''Message from Hart 0: '')"
    unfolding s3_def using tx_only_puts_lit [of "puts_lit ''Software interrupt from Hart 0'' s2"]
      tx_only_puts_lit [of s2 "''Software interrupt from Hart 0''"]
    by (simp add: tx_only_def s2)
  from tx_only_trans [OF _ this, of s2 "puts_bytes h ''Software interrupt from Hart 0''"]
  have t3: "tx_only s2 s3
      (puts_bytes h ''Software interrupt from Hart 0'' @ puts_bytes h ''Message from Hart 0: '')"
    using tx_only_puts_lit [of s2 "''Software interrupt from Hart 0''"] by (simp add: s2)
  then have m3: "mem s3 = mem s2" by (simp add: tx_only_def)
  have "cstring_at ?M SMP_ADDR bs"
    by (rule memcpy_loop_cstring [OF assms(1) len assms(3)])
  moreover have "mem s3 (SMP_ADDR + of_nat i) = ?M (SMP_ADDR + of_nat i)" if "i \<le> length bs" for i
    using that assms(2) by (simp add: m3 s2 store32_mailbox [OF _ assms(5)])
  ultimately have "cstring_at (mem s3) SMP_ADDR bs"
    by (simp add: cstring_at_iff_nth)
  from uart_puts_cstring [OF this] obtain s4 where
    p: "uart_puts SMP_ADDR s3 = Some s4" and t4: "tx_only s3 s4 bs"
    by blast
  define s' where "s' = clint_send_soft ZERO_HART s4"
  have "other_main_round h [] v = Some ([], s')"
    by (simp add: other_main_round_def w s3_def [symmetric] p s'_def)
  moreover from tx_only_trans [OF t3 t4] obtain es where
    "trace s4 = trace s2 @ es" "output_of es =
      (puts_bytes h ''Software interrupt from Hart 0'' @ puts_bytes h ''Message from Hart 0: '') @ bs"
    by (auto simp: tx_only_def)
  then have "output_of (trace s') =
      puts_bytes h ''Software interrupt from Hart 0'' @ puts_bytes h ''Message from Hart 0: '' @ bs"
    by (simp add: s'_def trace_clint_send_soft s2)
  ultimately show ?thesis using s1 unfolding v_def by blast
qed

theorem mailbox_round_trip_witness:
  "cstring_at (mem hi_file) 0x80000000 [0x68, 0x69] \<and> length [0x68, 0x69 :: byte] < SMP_SIZE \<and>
   forward_safe SMP_ADDR 0x80000000 (of_nat (length [0x68, 0x69 :: byte]) + 1) \<and>
   clint_base hi_file = CLINT_CTRL_ADDR \<and> unat (1 :: 64 word) < MAX_HARTS \<and>
   (\<exists>s1 s'. test_ipi_send 1 0x80000000 hi_file = Some s1 \<and>
           other_main_round 1 [] (seen_by 1 s1) = Some ([], s') \<and>
           output_of (trace s') =
             puts_bytes 1 ''Software interrupt from Hart 0'' @
             puts_bytes 1 ''Message from Hart 0: '' @ [0x68, 0x69])"
proof -
  have len: "length [0x68, 0x69 :: byte] < SMP_SIZE" by (simp add: SMP_SIZE_def)
  have cb: "clint_base hi_file = CLINT_CTRL_ADDR" by (simp add: hi_file_def)
  have h: "unat (1 :: 64 word) < MAX_HARTS" by (simp add: MAX_HARTS_def)
  from mailbox_round_trip [OF cstring_at_hi_file len forward_safe_hi_file cb h]
    cstring_at_hi_file len forward_safe_hi_file cb h
  show ?thesis by blast
qed

section \<open>MailboxChannel: reading the message and sending it\<close>








lemma of_int_uint_byte [simp]: "(of_int (uint (c :: byte)) :: byte) = c"
  by simp









section \<open>BarrierProtocol\<close>

declare smp_broadcast.simps [simp del]

lemma smp_broadcast_step:
  "smp_broadcast r s =
     (if r + 4 <s CLINT_END_HART_IPI then smp_broadcast (r + 4) (raw_writew 1 r s)
      else raw_writew 1 r s)"
  by (subst smp_broadcast.simps) (simp add: Let_def)

lemmas clint_consts = CLINT_SOFT_def CLINT_CTRL_ADDR_def CLINT_MSIP_SIZE_def
  CLINT_MSIP_OFFSET_def CLINT_END_HART_IPI_def MAX_HARTS_def

lemma upt_5: "[0..<5] = [0, 1, 2, 3, 4]"
  by (simp add: upt_rec)

lemma smp_broadcast_unfold:
  "smp_broadcast CLINT_CTRL_ADDR s =
     raw_writew 1 0x2000010 (raw_writew 1 0x200000c (raw_writew 1 0x2000008
       (raw_writew 1 0x2000004 (raw_writew 1 0x2000000 s))))"
  by (simp add: smp_broadcast_step clint_consts)

text \<open>
  Claim C7.  The broadcast loop of \<open>smp_resume\<close> performs exactly one store of 1 to the
  pending register of every hart id \<open>h\<close> from 0 to \<open>MAX_HARTS - 1\<close>, in increasing order of
  \<open>h\<close> and including hart 0 itself; on an initialised controller the resulting store is that
  of the calls \<open>clint_send_soft(0)\<close>, ..., \<open>clint_send_soft(MAX_HARTS - 1)\<close> in this order.
  (The macro stores with \<open>sw\<close> directly; unlike \<open>clint_send_soft\<close> it issues no fence.)
\<close>

theorem smp_broadcast_raises_each_once:
  "trace (smp_broadcast CLINT_CTRL_ADDR s) =
     trace s @ map (\<lambda>h. StoreW (CLINT_SOFT CLINT_CTRL_ADDR (of_nat h)) 1) [0..<MAX_HARTS] \<and>
   (clint_base s = CLINT_CTRL_ADDR \<longrightarrow>
      mem (smp_broadcast CLINT_CTRL_ADDR s) =
        mem (fold clint_send_soft (map of_nat [0..<MAX_HARTS]) s))"
  unfolding smp_broadcast_unfold
  by (simp add: clint_consts upt_5 raw_writew_def log_def clint_send_soft_def writew_def fence_def)

theorem smp_broadcast_raises_each_once_witness:
  "clint_base hart_file = CLINT_CTRL_ADDR \<and>
   trace (smp_broadcast CLINT_CTRL_ADDR hart_file) =
     [StoreW 0x2000000 1, StoreW 0x2000004 1, StoreW 0x2000008 1, StoreW 0x200000c 1,
      StoreW 0x2000010 1] \<and>
   mem (smp_broadcast CLINT_CTRL_ADDR hart_file) =
     mem (fold clint_send_soft [0, 1, 2, 3, 4] hart_file)"
proof -
  have cb: "clint_base hart_file = CLINT_CTRL_ADDR" by (simp add: hart_file_def)
  have tr: "trace hart_file = []" by (simp add: hart_file_def)
  from smp_broadcast_raises_each_once [of hart_file] cb tr show ?thesis
    by (simp add: clint_consts upt_5)
qed




lemma act_fields [simp]:
  "trace (act a s) = trace s" "clint_base (act a s) = clint_base s" "mhartid (act a s) = mhartid s"
  by (cases a; simp)+

lemma others_fields [simp]:
  "trace (others acts s) = trace s" "clint_base (others acts s) = clint_base s"
  "mhartid (others acts s) = mhartid s"
  unfolding others_def by (induction acts arbitrary: s; simp)+




















section \<open>Acknowledging a wake\<close>

lemma wfi_fields [simp]:
  "trace (wfi acts s) = trace s @ [Wfi]" "clint_base (wfi acts s) = clint_base s"
  "mhartid (wfi acts s) = mhartid s"
  by (simp_all add: wfi_def)








lemma load32_zero_mem [simp]: "load32 (\<lambda>_. 0) a = 0"
  by (simp add: load32_def)







end
